theory Spec2Isabelle
  imports Main "HOL-Library.Word" "HOL-Library.Signed_Division" "HOL-Library.Multiset"
begin

section \<open>The timer heap of \<open>comet/timer.go\<close>\<close>

text \<open>
  The file implements a fixed-capacity binary min-heap of \<open>*TimerData\<close> ordered by
  \<open>Key\<close>, every stored object recording its own slot in the field \<open>index\<close>, and a
  background loop \<open>process\<close> that pops expired entries and closes their connection.

  Modelling decisions.
  \<^item> Go's \<open>int\<close> (on a 64-bit platform) and \<open>int64\<close> are \<open>64 word\<close>; arithmetic wraps,
    comparisons are the signed ones (\<open><s\<close>, \<open>\<le>s\<close>), \<open>/\<close> truncates towards zero.
  \<^item> A \<open>*TimerData\<close> is \<open>ref option\<close> (\<open>None\<close> is \<open>nil\<close>); the objects live in a
    memory \<open>ref \<Rightarrow> TimerData\<close> that is passed along with the \<open>Timer\<close> struct, so
    that two slots holding the same pointer alias the same object.
  \<^item> A run-time panic (index out of range, nil dereference) is \<open>Inl\<close> of a sum.
  \<^item> The mutex is the boolean field \<open>lock\<close>. \<open>Lock()\<close> on a held mutex never returns
    in a sequential run; never returning is the value \<open>None\<close>, as is a loop that
    never exits. Every \<open>Unlock()\<close> of the source follows a \<open>Lock()\<close> of the same
    call, so the run-time error for unlocking a free mutex cannot arise.
  \<^item> The \<open>log\<close> calls only read and are left out, except that \<open>Remove\<close> reads
    \<open>item.Key\<close> for its log line before it takes the lock.
\<close>

type_synonym go_int = "64 word"
type_synonym ref = nat
type_synonym conn = nat

datatype error = ErrTimerFull | ErrTimerEmpty | ErrTimerNoItem

datatype panic = IndexOutOfRange | NilDereference | MakeSliceLen

record TimerData =
  Key :: "64 word"
  Value :: "conn option"
  index :: go_int

record Timer =
  cur :: go_int
  max_t :: go_int
  lock :: bool
  timers :: "ref option list"

type_synonym mem = "ref \<Rightarrow> TimerData"

text \<open>Slice indexing: \<open>xs[i]\<close> panics unless \<open>0 \<le> i < len(xs)\<close>.\<close>

definition in_range :: "go_int \<Rightarrow> 'a list \<Rightarrow> bool" where
  "in_range i xs \<longleftrightarrow> 0 \<le> sint i \<and> nat (sint i) < length xs"

definition slot :: "go_int \<Rightarrow> nat" where
  "slot i = nat (sint i)"

text \<open>Go's \<open>/\<close> on \<open>int\<close>: the quotient truncated towards zero, in 64 bits.\<close>

definition go_div :: "go_int \<Rightarrow> go_int \<Rightarrow> go_int" where
  "go_div a b = word_of_int (sint a sdiv sint b)"

text \<open>\<open>NewTimer\<close>: \<open>make\<close> panics on a negative length. The goroutine it starts is
  \<open>process\<close>, modelled below one iteration at a time.\<close>

definition NewTimer :: "go_int \<Rightarrow> panic + Timer" where
  "NewTimer num =
     (if num <s 0 then Inl MakeSliceLen
      else Inr \<lparr>cur = - 1, max_t = num - 1, lock = False,
                timers = replicate (nat (sint num)) None\<rparr>)"

text \<open>\<open>less\<close>: \<open>t.timers[i].Key < t.timers[j].Key\<close>, left operand first.\<close>

definition less_t :: "go_int \<Rightarrow> go_int \<Rightarrow> Timer \<Rightarrow> mem \<Rightarrow> panic + bool" where
  "less_t i j t m =
     (if \<not> in_range i (timers t) then Inl IndexOutOfRange
      else case timers t ! slot i of
             None \<Rightarrow> Inl NilDereference
           | Some a \<Rightarrow>
               (if \<not> in_range j (timers t) then Inl IndexOutOfRange
                else case timers t ! slot j of
                       None \<Rightarrow> Inl NilDereference
                     | Some b \<Rightarrow> Inr (Key (m a) <s Key (m b))))"

text \<open>\<open>swap\<close>: the tuple assignment reads both slots (right-hand side, left to
  right) before it writes; then the two \<open>index\<close> fields are written through the
  pointers now in the slots, the second write winning if both are one object.\<close>

definition swap :: "go_int \<Rightarrow> go_int \<Rightarrow> Timer \<Rightarrow> mem \<Rightarrow> panic + Timer \<times> mem" where
  "swap i j t m =
     (if \<not> in_range j (timers t) \<or> \<not> in_range i (timers t) then Inl IndexOutOfRange
      else
        let ts = (timers t)[slot i := timers t ! slot j, slot j := timers t ! slot i]
        in case ts ! slot i of
             None \<Rightarrow> Inl NilDereference
           | Some a \<Rightarrow>
               (let m1 = m(a := (m a)\<lparr>index := i\<rparr>)
                in case ts ! slot j of
                     None \<Rightarrow> Inl NilDereference
                   | Some b \<Rightarrow> Inr (t\<lparr>timers := ts\<rparr>, m1(b := (m1 b)\<lparr>index := j\<rparr>))))"

text \<open>\<open>pop\<close>: detach the entry in slot \<open>cur\<close>.\<close>

definition pop :: "Timer \<Rightarrow> mem \<Rightarrow> panic + ref \<times> Timer \<times> mem" where
  "pop t m =
     (if \<not> in_range (cur t) (timers t) then Inl IndexOutOfRange
      else case timers t ! slot (cur t) of
             None \<Rightarrow> Inl NilDereference
           | Some a \<Rightarrow> Inr (a, t\<lparr>cur := cur t - 1\<rparr>, m(a := (m a)\<lparr>index := - 1\<rparr>)))"

text \<open>\<open>up\<close>: the loop \<open>for { i := (j-1)/2; if i == j || !less(j, i) { break };
  swap(i, j); j = i }\<close>.\<close>

partial_function (option) up :: "go_int \<Rightarrow> Timer \<Rightarrow> mem \<Rightarrow> (panic + Timer \<times> mem) option" where
  "up j t m =
     (let i = go_div (j - 1) 2
      in if i = j then Some (Inr (t, m))
         else case less_t j i t m of
                Inl e \<Rightarrow> Some (Inl e)
              | Inr b \<Rightarrow>
                  (if \<not> b then Some (Inr (t, m))
                   else case swap i j t m of
                          Inl e \<Rightarrow> Some (Inl e)
                        | Inr (t', m') \<Rightarrow> up i t' m'))"

declare up.simps [code]

text \<open>The child that \<open>down\<close> compares with: \<open>j := j1; if j2 := j1 + 1; j2 < n &&
  !less(j1, j2) { j = j2 }\<close>.\<close>

definition down_child :: "go_int \<Rightarrow> go_int \<Rightarrow> Timer \<Rightarrow> mem \<Rightarrow> panic + go_int" where
  "down_child j1 n t m =
     (let j2 = j1 + 1
      in if j2 <s n
         then (case less_t j1 j2 t m of
                 Inl e \<Rightarrow> Inl e
               | Inr b \<Rightarrow> Inr (if \<not> b then j2 else j1))
         else Inr j1)"

text \<open>\<open>down\<close>: the loop of lines 140-156.\<close>

partial_function (option) down ::
    "go_int \<Rightarrow> go_int \<Rightarrow> Timer \<Rightarrow> mem \<Rightarrow> (panic + Timer \<times> mem) option" where
  "down i n t m =
     (let j1 = 2 * i + 1
      in if n \<le>s j1 \<or> j1 <s 0 then Some (Inr (t, m))
         else case down_child j1 n t m of
                Inl e \<Rightarrow> Some (Inl e)
              | Inr j \<Rightarrow>
                  (case less_t j i t m of
                     Inl e \<Rightarrow> Some (Inl e)
                   | Inr b \<Rightarrow>
                       (if \<not> b then Some (Inr (t, m))
                        else case swap i j t m of
                               Inl e \<Rightarrow> Some (Inl e)
                             | Inr (t', m') \<Rightarrow> down j n t' m')))"

declare down.simps [code]

text \<open>\<open>Push\<close>: note the argument of \<open>up\<close>, \<open>t.cur - 1\<close>, read after \<open>t.cur++\<close>.\<close>

definition Push ::
    "ref option \<Rightarrow> Timer \<Rightarrow> mem \<Rightarrow> (panic + error option \<times> Timer \<times> mem) option" where
  "Push item t m =
     (if lock t then None
      else
        let t1 = t\<lparr>lock := True\<rparr>
        in if max_t t1 \<le>s cur t1 then Some (Inr (Some ErrTimerFull, t1\<lparr>lock := False\<rparr>, m))
           else
             let t2 = t1\<lparr>cur := cur t1 + 1\<rparr>
             in case item of
                  None \<Rightarrow> Some (Inl NilDereference)
                | Some a \<Rightarrow>
                    (let m1 = m(a := (m a)\<lparr>index := cur t2\<rparr>)
                     in if \<not> in_range (cur t2) (timers t2) then Some (Inl IndexOutOfRange)
                        else
                          let t3 = t2\<lparr>timers := (timers t2)[slot (cur t2) := Some a]\<rparr>
                          in case up (cur t3 - 1) t3 m1 of
                               None \<Rightarrow> None
                             | Some (Inl e) \<Rightarrow> Some (Inl e)
                             | Some (Inr (t4, m4)) \<Rightarrow>
                                 Some (Inr (None, t4\<lparr>lock := False\<rparr>, m4))))"

text \<open>\<open>Pop\<close>: the empty branch returns without \<open>Unlock\<close>.\<close>

definition Pop ::
    "Timer \<Rightarrow> mem \<Rightarrow> (panic + (ref option \<times> error option) \<times> Timer \<times> mem) option" where
  "Pop t m =
     (if lock t then None
      else
        let t1 = t\<lparr>lock := True\<rparr>
        in if cur t1 <s 0 then Some (Inr ((None, Some ErrTimerEmpty), t1, m))
           else case swap 0 (cur t1) t1 m of
                  Inl e \<Rightarrow> Some (Inl e)
                | Inr (t2, m2) \<Rightarrow>
                    (case down 0 (cur t2) t2 m2 of
                       None \<Rightarrow> None
                     | Some (Inl e) \<Rightarrow> Some (Inl e)
                     | Some (Inr (t3, m3)) \<Rightarrow>
                         (case pop t3 m3 of
                            Inl e \<Rightarrow> Some (Inl e)
                          | Inr (a, t4, m4) \<Rightarrow>
                              Some (Inr ((Some a, None), t4\<lparr>lock := False\<rparr>, m4)))))"

text \<open>\<open>Remove\<close>: \<open>item.index\<close> is read again from the object at each use, that is
  after \<open>swap\<close> and after \<open>down\<close> have written index fields. The branch for
  \<open>index == -1\<close> returns without \<open>Unlock\<close>.\<close>

definition Remove ::
    "ref option \<Rightarrow> Timer \<Rightarrow> mem
      \<Rightarrow> (panic + (ref option \<times> error option) \<times> Timer \<times> mem) option" where
  "Remove item t m =
     (case item of
        None \<Rightarrow> Some (Inl NilDereference)
      | Some e \<Rightarrow>
          (if lock t then None
           else
             let t1 = t\<lparr>lock := True\<rparr>
             in if index (m e) = - 1 then Some (Inr ((None, Some ErrTimerNoItem), t1, m))
                else case (if cur t1 \<noteq> index (m e)
                           then (case swap (index (m e)) (cur t1) t1 m of
                                   Inl p \<Rightarrow> Some (Inl p)
                                 | Inr (t2, m2) \<Rightarrow>
                                     (case down (index (m2 e)) (cur t2) t2 m2 of
                                        None \<Rightarrow> None
                                      | Some (Inl p) \<Rightarrow> Some (Inl p)
                                      | Some (Inr (t3, m3)) \<Rightarrow> up (index (m3 e)) t3 m3))
                           else Some (Inr (t1, m))) of
                       None \<Rightarrow> None
                     | Some (Inl p) \<Rightarrow> Some (Inl p)
                     | Some (Inr (t4, m4)) \<Rightarrow>
                         (case pop t4 m4 of
                            Inl p \<Rightarrow> Some (Inl p)
                          | Inr (a, t5, m5) \<Rightarrow>
                              Some (Inr ((Some a, None), t5\<lparr>lock := False\<rparr>, m5)))))"

text \<open>\<open>Peek\<close>: no \<open>Lock\<close>, no write.\<close>

definition Peek :: "Timer \<Rightarrow> mem \<Rightarrow> panic + ref option \<times> error option" where
  "Peek t m =
     (if cur t <s 0 then Inr (None, Some ErrTimerEmpty)
      else if \<not> in_range 0 (timers t) then Inl IndexOutOfRange
      else Inr (timers t ! 0, None))"

text \<open>\<open>process\<close>: one iteration of the endless loop, as a function of the clock
  value that \<open>time.Now().UnixNano()\<close> returns in it. Sleeping changes nothing in
  the store; what the iteration did is reported as an \<open>outcome\<close>.\<close>

datatype outcome = Slept "64 word" | NoConn | Closed conn

definition timerDelay :: "64 word" where
  "timerDelay = 100 * 1000000"

definition process_iter ::
    "64 word \<Rightarrow> Timer \<Rightarrow> mem \<Rightarrow> (panic + outcome \<times> Timer \<times> mem) option" where
  "process_iter now t m =
     (case Peek t m of
        Inl p \<Rightarrow> Some (Inl p)
      | Inr (td, err) \<Rightarrow>
          (if err \<noteq> None then Some (Inr (Slept timerDelay, t, m))
           else case td of
                  None \<Rightarrow> Some (Inl NilDereference)
                | Some a \<Rightarrow>
                    (let sleep = Key (m a) - now
                     in if 0 <s sleep then Some (Inr (Slept sleep, t, m))
                        else case Pop t m of
                               None \<Rightarrow> None
                             | Some (Inl p) \<Rightarrow> Some (Inl p)
                             | Some (Inr ((td', err'), t', m')) \<Rightarrow>
                                 (if err' \<noteq> None then Some (Inr (Slept timerDelay, t', m'))
                                  else case td' of
                                         None \<Rightarrow> Some (Inl NilDereference)
                                       | Some b \<Rightarrow>
                                           (case Value (m' b) of
                                              None \<Rightarrow> Some (Inr (NoConn, t', m'))
                                            | Some c \<Rightarrow> Some (Inr (Closed c, t', m')))))))"

subsection \<open>Sequences of calls\<close>

text \<open>A client of the package is a sequence of calls on one \<open>Timer\<close>, each
  running to its end before the next starts; \<open>Iterate now\<close> is one iteration
  of \<open>process\<close>. \<open>run\<close> collects what each call returned and stops at the first call
  that panics or never returns.\<close>

datatype call = CallPush "ref option" | CallPop | CallRemove "ref option" | CallPeek
  | Iterate "64 word"

datatype ret = RetErr "error option" | RetItem "ref option" "error option" | RetIter outcome

fun exec :: "call \<Rightarrow> Timer \<Rightarrow> mem \<Rightarrow> (panic + ret \<times> Timer \<times> mem) option" where
  "exec (CallPush item) t m =
     (case Push item t m of
        None \<Rightarrow> None
      | Some (Inl p) \<Rightarrow> Some (Inl p)
      | Some (Inr (err, t', m')) \<Rightarrow> Some (Inr (RetErr err, t', m')))"
| "exec CallPop t m =
     (case Pop t m of
        None \<Rightarrow> None
      | Some (Inl p) \<Rightarrow> Some (Inl p)
      | Some (Inr ((item, err), t', m')) \<Rightarrow> Some (Inr (RetItem item err, t', m')))"
| "exec (CallRemove item) t m =
     (case Remove item t m of
        None \<Rightarrow> None
      | Some (Inl p) \<Rightarrow> Some (Inl p)
      | Some (Inr ((nitem, err), t', m')) \<Rightarrow> Some (Inr (RetItem nitem err, t', m')))"
| "exec CallPeek t m =
     (case Peek t m of
        Inl p \<Rightarrow> Some (Inl p)
      | Inr (item, err) \<Rightarrow> Some (Inr (RetItem item err, t, m)))"
| "exec (Iterate now) t m =
     (case process_iter now t m of
        None \<Rightarrow> None
      | Some (Inl p) \<Rightarrow> Some (Inl p)
      | Some (Inr (out, t', m')) \<Rightarrow> Some (Inr (RetIter out, t', m')))"

fun run :: "call list \<Rightarrow> Timer \<Rightarrow> mem \<Rightarrow> (panic + ret list \<times> Timer \<times> mem) option" where
  "run [] t m = Some (Inr ([], t, m))"
| "run (c # cs) t m =
     (case exec c t m of
        None \<Rightarrow> None
      | Some (Inl p) \<Rightarrow> Some (Inl p)
      | Some (Inr (r, t', m')) \<Rightarrow>
          (case run cs t' m' of
             None \<Rightarrow> None
           | Some (Inl p) \<Rightarrow> Some (Inl p)
           | Some (Inr (rs, t'', m'')) \<Rightarrow> Some (Inr (r # rs, t'', m''))))"

text \<open>The same on a store fresh from \<open>NewTimer num\<close>.\<close>

definition run_new :: "go_int \<Rightarrow> call list \<Rightarrow> mem \<Rightarrow> (panic + ret list \<times> Timer \<times> mem) option" where
  "run_new num cs m = (case NewTimer num of Inl p \<Rightarrow> Some (Inl p) | Inr t \<Rightarrow> run cs t m)"

text \<open>Projections of a run: what was returned, the final store, a property of the
  final state, the panic, and whether the run blocks; one object of the final memory.\<close>

definition returned :: "(panic + 'r \<times> Timer \<times> mem) option \<Rightarrow> 'r option" where
  "returned x = (case x of Some (Inr (r, t, m)) \<Rightarrow> Some r | _ \<Rightarrow> None)"

definition final_timer :: "(panic + 'r \<times> Timer \<times> mem) option \<Rightarrow> Timer option" where
  "final_timer x = (case x of Some (Inr (r, t, m)) \<Rightarrow> Some t | _ \<Rightarrow> None)"

definition final :: "(Timer \<Rightarrow> mem \<Rightarrow> 'a) \<Rightarrow> (panic + 'r \<times> Timer \<times> mem) option \<Rightarrow> 'a option" where
  "final f x = (case x of Some (Inr (r, t, m)) \<Rightarrow> Some (f t m) | _ \<Rightarrow> None)"

definition panicked :: "(panic + 'r \<times> Timer \<times> mem) option \<Rightarrow> panic option" where
  "panicked x = (case x of Some (Inl p) \<Rightarrow> Some p | _ \<Rightarrow> None)"

definition never_returns :: "(panic + 'r \<times> Timer \<times> mem) option \<Rightarrow> bool" where
  "never_returns x = (case x of None \<Rightarrow> True | _ \<Rightarrow> False)"

definition final_obj :: "(panic + 'r \<times> Timer \<times> mem) option \<Rightarrow> ref \<Rightarrow> TimerData option" where
  "final_obj x a = (case x of Some (Inr (r, t, m)) \<Rightarrow> Some (m a) | _ \<Rightarrow> None)"

text \<open>Objects as a caller makes them, \<open>&TimerData{Key: k, Value: c}\<close>: the field
  \<open>index\<close> has Go's zero value. Object \<open>a\<close> has deadline \<open>a\<close> and connection \<open>a\<close>.\<close>

definition new_entries :: mem where
  "new_entries = (\<lambda>a. \<lparr>Key = word_of_nat a, Value = Some a, index = 0\<rparr>)"

subsection \<open>The invariants of the data model\<close>

text \<open>The number of occupied slots (the spec's \<open>size\<close>) is \<open>cur + 1\<close>.\<close>

definition size_t :: "Timer \<Rightarrow> nat" where
  "size_t t = nat (sint (cur t) + 1)"

text \<open>Min-heap property: every occupied slot \<open>i > 0\<close> holds an entry whose deadline
  is not below the deadline in the parent slot \<open>(i - 1) / 2\<close>.\<close>

definition heap_property :: "Timer \<Rightarrow> mem \<Rightarrow> bool" where
  "heap_property t m \<longleftrightarrow>
     (\<forall>i \<in> {1 ..< size_t t}.
        case (timers t ! ((i - 1) div 2), timers t ! i) of
          (Some p, Some c) \<Rightarrow> Key (m p) \<le>s Key (m c)
        | _ \<Rightarrow> False)"

text \<open>Slot mirror: the entry in occupied slot \<open>i\<close> has \<open>index = i\<close>.\<close>

definition slot_mirror :: "Timer \<Rightarrow> mem \<Rightarrow> bool" where
  "slot_mirror t m \<longleftrightarrow>
     (\<forall>i \<in> {0 ..< size_t t}.
        case timers t ! i of Some a \<Rightarrow> index (m a) = word_of_nat i | None \<Rightarrow> False)"

text \<open>The entries in the occupied slots, in slot order.\<close>

definition stored :: "Timer \<Rightarrow> ref option list" where
  "stored t = take (size_t t) (timers t)"

text \<open>A store of three entries that is not a heap (deadlines 5, 3, 4), and the
  corresponding objects; used to exercise the sift loops.\<close>

definition unsorted3 :: Timer where
  "unsorted3 = \<lparr>cur = 2, max_t = 2, lock = False, timers = [Some 5, Some 3, Some 4]\<rparr>"

definition unsorted3_mem :: mem where
  "unsorted3_mem =
     (\<lambda>a. \<lparr>Key = word_of_nat a, Value = Some a,
            index = (if a = 5 then 0 else if a = 3 then 1 else if a = 4 then 2 else - 1)\<rparr>)"

text \<open>A heap of three entries, the state after \<open>Push\<close> of the objects 1, 5 and 2 on a
  store made by \<open>NewTimer 3\<close>; every other object has never been inserted.\<close>

definition heap3 :: Timer where
  "heap3 = \<lparr>cur = 2, max_t = 2, lock = False, timers = [Some 1, Some 5, Some 2]\<rparr>"

definition heap3_mem :: mem where
  "heap3_mem =
     (\<lambda>a. \<lparr>Key = word_of_nat a, Value = Some a,
            index = (if a = 5 then 1 else if a = 2 then 2 else 0)\<rparr>)"

text \<open>The store made by \<open>NewTimer 1\<close>, and objects that were all detached before
  (\<open>index = -1\<close>).\<close>

definition empty1 :: Timer where
  "empty1 = \<lparr>cur = - 1, max_t = 0, lock = False, timers = [None]\<rparr>"

definition detached_mem :: mem where
  "detached_mem = (\<lambda>a. \<lparr>Key = word_of_nat a, Value = Some a, index = - 1\<rparr>)"

subsection \<open>Notions used in the proofs about \<open>down\<close> and \<open>Pop\<close>\<close>

text \<open>The deadline in slot \<open>k\<close> as an integer; the first \<open>N\<close> slots hold entries that
  mirror their slot; the heap order on the first \<open>N\<close> slots, and the same with the
  node \<open>I\<close> exempted (the state inside the loop of \<open>down\<close>); memories that differ
  only in index fields; what a sift on the first \<open>N\<close> slots leaves alone.\<close>

definition keyf :: "Timer \<Rightarrow> mem \<Rightarrow> nat \<Rightarrow> int" where
  "keyf t m k = (case timers t ! k of Some a \<Rightarrow> sint (Key (m a)) | None \<Rightarrow> 0)"

definition region_ok :: "nat \<Rightarrow> Timer \<Rightarrow> mem \<Rightarrow> bool" where
  "region_ok N t m \<longleftrightarrow>
     N \<le> length (timers t)
     \<and> (\<forall>k<N. \<exists>a. timers t ! k = Some a \<and> sint (index (m a)) = int k)"

definition heap_on :: "nat \<Rightarrow> (nat \<Rightarrow> int) \<Rightarrow> bool" where
  "heap_on N f \<longleftrightarrow> (\<forall>k. 0 < k \<and> k < N \<longrightarrow> f ((k - 1) div 2) \<le> f k)"

definition heap_but :: "nat \<Rightarrow> nat \<Rightarrow> (nat \<Rightarrow> int) \<Rightarrow> bool" where
  "heap_but I N f \<longleftrightarrow>
     (\<forall>k. 0 < k \<and> k < N \<and> (k - 1) div 2 \<noteq> I \<longrightarrow> f ((k - 1) div 2) \<le> f k)
     \<and> (\<forall>k. 0 < k \<and> k < N \<and> (k - 1) div 2 = I \<and> 0 < I \<longrightarrow> f ((I - 1) div 2) \<le> f k)"

definition same_data :: "mem \<Rightarrow> mem \<Rightarrow> bool" where
  "same_data m m' \<longleftrightarrow> (\<forall>a. Key (m' a) = Key (m a) \<and> Value (m' a) = Value (m a))"

definition sift_frame :: "nat \<Rightarrow> Timer \<Rightarrow> mem \<Rightarrow> Timer \<Rightarrow> mem \<Rightarrow> bool" where
  "sift_frame N t m t' m' \<longleftrightarrow>
     cur t' = cur t \<and> max_t t' = max_t t \<and> lock t' = lock t
     \<and> length (timers t') = length (timers t)
     \<and> drop N (timers t') = drop N (timers t)
     \<and> mset (take N (timers t')) = mset (take N (timers t))
     \<and> same_data m m'
     \<and> (\<forall>a. Some a \<notin> set (take N (timers t)) \<longrightarrow> m' a = m a)"

subsection \<open>Call sequences that respect the ownership rule\<close>




text \<open>The invariant carried through a sequence of calls, for a store of \<open>N\<close> entries:
  the first \<open>N\<close> slots mirror their entries, and an object outside them has index
  \<open>-1\<close> (detached) or \<open>0\<close> (never inserted).\<close>

definition inv_at :: "nat \<Rightarrow> Timer \<Rightarrow> mem \<Rightarrow> bool" where
  "inv_at N t m \<longleftrightarrow>
     sint (cur t) = int N - 1 \<and> region_ok N t m
     \<and> (\<forall>a. Some a \<notin> set (take N (timers t)) \<longrightarrow> index (m a) = - 1 \<or> index (m a) = 0)"

section \<open>Index arithmetic in 64 bits\<close>

lemma sint_sub1: "0 \<le> sint (j::64 word) \<Longrightarrow> sint (j - 1) = sint j - 1"
proof -
  assume a: "0 \<le> sint j"
  have b: "sint j < 2 ^ 63" using sint_lt [of j] by simp
  have "sint (j - 1) = signed_take_bit 63 (sint j - 1)"
    by (simp add: sint_word_ariths)
  also have "\<dots> = sint j - 1"
    using a b by (intro signed_take_bit_int_eq_self) auto
  finally show ?thesis .
qed

lemma sint_add1: "sint (j::64 word) < 2 ^ 63 - 1 \<Longrightarrow> sint (j + 1) = sint j + 1"
proof -
  assume a: "sint j < 2 ^ 63 - 1"
  have b: "- (2 ^ 63) \<le> sint j" using sint_ge [of j] by simp
  have "sint (j + 1) = signed_take_bit 63 (sint j + 1)"
    by (simp add: sint_word_ariths)
  also have "\<dots> = sint j + 1"
    using a b by (intro signed_take_bit_int_eq_self) auto
  finally show ?thesis .
qed

lemma sint_go_div2_nonneg: "0 \<le> sint (a::64 word) \<Longrightarrow> sint (go_div a 2) = sint a div 2"
proof -
  assume a: "0 \<le> sint a"
  have b: "sint a < 2 ^ 63" using sint_lt [of a] by simp
  have "sint a sdiv 2 = sint a div 2"
    using a by (simp add: signed_divide_int_def sgn_if)
  moreover have "sint (go_div a 2) = signed_take_bit 63 (sint a sdiv 2)"
    by (simp add: go_div_def sint_sbintrunc')
  moreover have "signed_take_bit 63 (sint a div 2) = sint a div 2"
    using a b by (intro signed_take_bit_int_eq_self) auto
  ultimately show ?thesis by simp
qed

lemma parent_less: 
  assumes "0 \<le> sint (j::64 word)" "go_div (j - 1) 2 \<noteq> j"
  shows "0 \<le> sint (go_div (j - 1) 2) \<and> sint (go_div (j - 1) 2) < sint j \<and> sint (go_div (j - 1) 2) = (sint j - 1) div 2"
proof (cases "sint j = 0")
  case True
  then have "j = 0" by (simp add: signed_eq_0_iff)
  then have "go_div (j - 1) 2 = j" by (simp add: go_div_def signed_divide_int_def)
  with assms show ?thesis by simp
next
  case False
  with assms have p: "1 \<le> sint j" by simp
  have s: "sint (j - 1) = sint j - 1" using assms by (simp add: sint_sub1)
  then have "sint (go_div (j - 1) 2) = (sint j - 1) div 2"
    using p sint_go_div2_nonneg [of "j - 1"] by simp
  then show ?thesis using p by simp
qed

lemma sint_child:
  assumes "0 \<le> sint (i::64 word)"
  shows "sint (2 * i + 1) < 0 \<and> 2 ^ 63 \<le> 2 * sint i + 1 \<or> sint (2 * i + 1) = 2 * sint i + 1"
proof (cases "2 * sint i + 1 < 2 ^ 63")
  case True
  have "2 * i + 1 = (word_of_int (2 * sint i + 1) :: 64 word)" by simp
  then have "sint (2 * i + 1) = signed_take_bit 63 (2 * sint i + 1)"
    by (simp only: sint_sbintrunc') simp
  also have "\<dots> = 2 * sint i + 1"
    using assms True by (intro signed_take_bit_int_eq_self) auto
  finally show ?thesis by simp
next
  case False
  have b: "sint i < 2 ^ 63" using sint_lt [of i] by simp
  have "2 * i + 1 = (word_of_int (2 * sint i + 1) :: 64 word)" by simp
  then have "sint (2 * i + 1) = signed_take_bit 63 (2 * sint i + 1)"
    by (simp only: sint_sbintrunc') simp
  also have "\<dots> = take_bit 64 (2 * sint i + 1 + 2 ^ 63) - 2 ^ 63"
    by (simp add: signed_take_bit_eq_take_bit_shift)
  also have "take_bit 64 (2 * sint i + 1 + 2 ^ 63) = (2 * sint i + 1 + 2 ^ 63) mod 2 ^ 64"
    by (simp add: take_bit_eq_mod)
  also have "(2 * sint i + 1 + 2 ^ 63) mod 2 ^ 64 = 2 * sint i + 1 + 2 ^ 63 - 2 ^ 64"
    using False b by (simp add: mod_pos_geq)
  finally show ?thesis using False b by simp
qed

section \<open>The sift loops return\<close>

lemma less_t_Inr_in_range:
  "less_t i j t m = Inr b \<Longrightarrow> in_range i (timers t) \<and> in_range j (timers t)"
  by (auto simp: less_t_def split: if_splits option.splits)

lemma up_returns: "\<exists>r. up j t m = Some r"
proof (induction "nat (sint j)" arbitrary: j t m rule: less_induct)
  case less
  let ?i = "go_div (j - 1) 2"
  show ?case
  proof (cases "?i = j")
    case True
    then show ?thesis by (subst up.simps) (simp add: Let_def)
  next
    case ne: False
    show ?thesis
    proof (cases "less_t j ?i t m")
      case (Inl e)
      then show ?thesis using ne by (subst up.simps) (simp add: Let_def)
    next
      case (Inr b)
      then have rng: "0 \<le> sint j"
        using less_t_Inr_in_range [of j ?i t m b] by (simp add: in_range_def)
      have dec: "nat (sint ?i) < nat (sint j)"
        using parent_less [OF rng ne] by simp
      show ?thesis
      proof (cases "swap ?i j t m")
        case (Inl e)
        then show ?thesis using ne Inr by (subst up.simps) (simp add: Let_def)
      next
        case sw: (Inr p)
        obtain t' m' where p: "p = (t', m')" by (cases p)
        from less.hyps [OF dec] obtain r where "up ?i t' m' = Some r" by blast
        then show ?thesis using ne Inr sw p by (subst up.simps) (simp add: Let_def)
      qed
    qed
  qed
qed

lemma down_child_bounds:
  assumes "\<not> (n \<le>s j1 \<or> j1 <s 0)" "down_child j1 n t m = Inr j"
  shows "sint j1 \<le> sint j \<and> sint j < sint n"
proof -
  from assms(1) have a: "sint j1 < sint n" "0 \<le> sint j1"
    by (auto simp: word_sle_eq word_sless_alt)
  have "sint n < 2 ^ 63" using sint_lt [of n] by simp
  with a have s: "sint (j1 + 1) = sint j1 + 1" by (intro sint_add1) simp
  from assms(2) have "j = j1 \<or> (j = j1 + 1 \<and> j1 + 1 <s n)"
    by (auto simp: down_child_def Let_def split: if_splits sum.splits)
  then show ?thesis using a s by (auto simp: word_sless_alt)
qed

lemma down_next_index:
  assumes "\<not> (n \<le>s 2 * i + 1 \<or> 2 * i + 1 <s 0)" "down_child (2 * i + 1) n t m = Inr j"
    "less_t j i t m = Inr b"
  shows "sint i < sint j \<and> sint j < sint n"
proof -
  from assms(3) have i0: "0 \<le> sint i"
    using less_t_Inr_in_range [of j i t m b] by (simp add: in_range_def)
  from assms(1) have "0 \<le> sint (2 * i + 1)" by (auto simp: word_sless_alt)
  with sint_child [OF i0] have "sint (2 * i + 1) = 2 * sint i + 1" by auto
  with down_child_bounds [OF assms(1,2)] i0 show ?thesis by simp
qed

lemma down_returns: "\<exists>r. down i n t m = Some r"
proof (induction "nat (sint n - sint i)" arbitrary: i t m rule: less_induct)
  case less
  let ?j1 = "2 * i + 1"
  show ?case
  proof (cases "n \<le>s ?j1 \<or> ?j1 <s 0")
    case True
    then show ?thesis by (subst down.simps) (simp add: Let_def)
  next
    case go: False
    show ?thesis
    proof (cases "down_child ?j1 n t m")
      case (Inl e)
      then show ?thesis using go by (subst down.simps) (simp add: Let_def)
    next
      case ch: (Inr j)
      show ?thesis
      proof (cases "less_t j i t m")
        case (Inl e)
        then show ?thesis using go ch by (subst down.simps) (simp add: Let_def)
      next
        case ls: (Inr b)
        have dec: "nat (sint n - sint j) < nat (sint n - sint i)"
          using down_next_index [OF go ch ls] by simp
        show ?thesis
        proof (cases "swap i j t m")
          case (Inl e)
          then show ?thesis using go ch ls by (subst down.simps) (simp add: Let_def)
        next
          case sw: (Inr p)
          obtain t' m' where p: "p = (t', m')" by (cases p)
          from less.hyps [OF dec] obtain r where "down j n t' m' = Some r" by blast
          then show ?thesis using go ch ls sw p by (subst down.simps) (simp add: Let_def)
        qed
      qed
    qed
  qed
qed

lemma up_m1: "up (- 1) t m = Some (Inr (t, m))"
  by (subst up.simps) (simp add: go_div_def signed_divide_int_def)

lemma up_0: "up 0 t m = Some (Inr (t, m))"
  by (subst up.simps) (simp add: go_div_def signed_divide_int_def)

text \<open>
  C10. Neither sift loop can run forever, whatever its arguments and whatever the
  store holds: \<open>up\<close> and \<open>down\<close> always return or panic (the value is never
  \<open>None\<close>). \<open>up (-1)\<close> and \<open>up 0\<close> return the store untouched in any state, even one
  with an empty backing array, where any slot access would panic: the truncating
  division gives \<open>(j - 1) / 2 = j\<close> there. In \<open>down\<close>, an iteration that goes on to
  the swap moves to an index \<open>c\<close> with \<open>i < c < n\<close>, and a child index \<open>2 * i + 1\<close>
  that overflows is negative, so that the loop returns at once.
\<close>

theorem sift_loops_return:
  "(\<exists>r. up j t m = Some r)
   \<and> up (- 1) t m = Some (Inr (t, m))
   \<and> up 0 t m = Some (Inr (t, m))
   \<and> (\<exists>r. down i n t m = Some r)
   \<and> (\<not> (n \<le>s 2 * i + 1 \<or> 2 * i + 1 <s 0) \<longrightarrow> down_child (2 * i + 1) n t m = Inr c
        \<longrightarrow> less_t c i t m = Inr b \<longrightarrow> sint i < sint c \<and> sint c < sint n)
   \<and> (0 \<le> sint i \<longrightarrow> 2 ^ 63 \<le> 2 * sint i + 1 \<longrightarrow> down i n t m = Some (Inr (t, m)))"
proof -
  have ovf: "down i n t m = Some (Inr (t, m))" if "0 \<le> sint i" "2 ^ 63 \<le> 2 * sint i + 1"
  proof -
    have "sint (2 * i + 1) < 2 ^ 63" using sint_lt [of "2 * i + 1"] by simp
    with sint_child [OF that(1)] that(2) have "2 * i + 1 <s 0"
      by (auto simp: word_sless_alt)
    then show ?thesis by (subst down.simps) (simp add: Let_def)
  qed
  show ?thesis
    using up_returns [of j t m] up_m1 [of t m] up_0 [of t m] down_returns [of i n t m]
      down_next_index [of n i t m c b] ovf
    by blast
qed

theorem sift_loops_return_witness:
  "\<not> (3 \<le>s 2 * (0 :: go_int) + 1 \<or> 2 * (0 :: go_int) + 1 <s 0)
   \<and> down_child (2 * 0 + 1) 3 unsorted3 unsorted3_mem = Inr 1
   \<and> less_t 1 0 unsorted3 unsorted3_mem = Inr True
   \<and> sint (0 :: go_int) < sint (1 :: go_int) \<and> sint (1 :: go_int) < sint (3 :: go_int)
   \<and> (\<exists>r. up 2 unsorted3 unsorted3_mem = Some r)
   \<and> (\<exists>r. down 0 3 unsorted3 unsorted3_mem = Some r)"
proof -
  have h1: "\<not> (3 \<le>s 2 * (0 :: go_int) + 1 \<or> 2 * (0 :: go_int) + 1 <s 0)"
    by (simp add: word_sle_eq word_sless_alt)
  have h2: "down_child (2 * 0 + 1) 3 unsorted3 unsorted3_mem = Inr 1"
    by (simp add: down_child_def less_t_def in_range_def slot_def unsorted3_def
        unsorted3_mem_def)
  have h3: "less_t 1 0 unsorted3 unsorted3_mem = Inr True"
    by (simp add: less_t_def in_range_def slot_def unsorted3_def unsorted3_mem_def)
  show ?thesis
    using sift_loops_return [of 2 unsorted3 unsorted3_mem 0 3 1 True] h1 h2 h3
    by simp
qed

section \<open>Push on a full store\<close>

text \<open>
  C4. A store that holds capacity many entries has \<open>cur = max\<close>; the guard of \<open>Push\<close>
  is \<open>cur >= max\<close>. With the mutex free, \<open>Push\<close> of any pointer (even \<open>nil\<close>) returns
  \<open>ErrTimerFull\<close> and the \<open>Timer\<close> struct and every object are what they were: \<open>cur\<close>
  is unchanged, no slot is written and the index field of the pushed entry is not
  written.
\<close>

theorem Push_full_unchanged:
  "\<not> lock t \<Longrightarrow> max_t t \<le>s cur t \<Longrightarrow> Push item t m = Some (Inr (Some ErrTimerFull, t, m))"
  by (simp add: Push_def)

theorem Push_full_unchanged_witness:
  "\<not> lock \<lparr>cur = 1, max_t = 1, lock = False, timers = [Some 4, Some 9]\<rparr>
   \<and> max_t \<lparr>cur = 1, max_t = 1, lock = False, timers = [Some 4, Some 9]\<rparr>
       \<le>s cur \<lparr>cur = 1, max_t = 1, lock = False, timers = [Some 4, Some 9]\<rparr>
   \<and> Push (Some 7) \<lparr>cur = 1, max_t = 1, lock = False, timers = [Some 4, Some 9]\<rparr> new_entries
       = Some (Inr (Some ErrTimerFull,
            \<lparr>cur = 1, max_t = 1, lock = False, timers = [Some 4, Some 9]\<rparr>, new_entries))"
  using Push_full_unchanged
    [of "\<lparr>cur = 1, max_t = 1, lock = False, timers = [Some 4, Some 9]\<rparr>" "Some 7" new_entries]
  by simp

section \<open>Runs of calls on a fresh store\<close>

lemma run_projections:
  "returned x = Some r \<Longrightarrow> final_timer x = Some t' \<Longrightarrow> final_obj x a = Some d
    \<Longrightarrow> \<exists>m'. x = Some (Inr (r, t', m')) \<and> m' a = d"
  by (auto simp: returned_def final_timer_def final_obj_def split: option.splits sum.splits)

lemma heap3_reached:
  "final_timer (run_new 3 [CallPush (Some 1), CallPush (Some 5), CallPush (Some 2)] new_entries)
     = Some heap3
   \<and> final_obj (run_new 3 [CallPush (Some 1), CallPush (Some 5), CallPush (Some 2)] new_entries) 1
     = Some (heap3_mem 1)
   \<and> final_obj (run_new 3 [CallPush (Some 1), CallPush (Some 5), CallPush (Some 2)] new_entries) 5
     = Some (heap3_mem 5)
   \<and> final_obj (run_new 3 [CallPush (Some 1), CallPush (Some 5), CallPush (Some 2)] new_entries) 2
     = Some (heap3_mem 2)
   \<and> final_obj (run_new 3 [CallPush (Some 1), CallPush (Some 5), CallPush (Some 2)] new_entries) 7
     = Some (heap3_mem 7)"
  by code_simp

text \<open>
  C1. \<open>Push\<close> stores the new entry in slot \<open>cur\<close> after \<open>cur++\<close> and then calls
  \<open>up (cur - 1)\<close>: the sift starts at the slot before the new entry, which is never
  compared with its parent. On a store made by \<open>NewTimer 2\<close>, \<open>Push\<close> of the entry
  with deadline 5 and then of the entry with deadline 3 leaves them in slots 0 and
  1, and \<open>Peek\<close> returns the entry with deadline 5, not the minimum.
\<close>

theorem Push_Peek_not_minimum:
  "returned (run_new 2 [CallPush (Some 5), CallPush (Some 3), CallPeek] new_entries)
     = Some [RetErr None, RetErr None, RetItem (Some 5) None]
   \<and> final_timer (run_new 2 [CallPush (Some 5), CallPush (Some 3), CallPeek] new_entries)
     = Some \<lparr>cur = 1, max_t = 1, lock = False, timers = [Some 5, Some 3]\<rparr>
   \<and> Key (new_entries 3) <s Key (new_entries 5)"
  by code_simp


section \<open>The error paths\<close>

lemma Remove_NoItem_only:
  assumes "Remove (Some e) t m = Some (Inr ((r, Some ErrTimerNoItem), t1, m1))"
  shows "index (m e) = - 1"
proof (rule ccontr)
  assume ne: "index (m e) \<noteq> - 1"
  have nl: "\<not> lock t" using assms by (auto simp: Remove_def)
  from assms show False
    by (simp add: Remove_def Let_def ne nl split: option.splits sum.splits prod.splits)
qed

text \<open>
  C5, as stated, fails: \<open>Remove\<close> tests only \<open>item.index == -1\<close>, and an entry that
  was never inserted has \<open>index = 0\<close>. On the empty store made by \<open>NewTimer 1\<close>,
  \<open>Remove\<close> of such an entry goes on to \<open>swap (0, -1)\<close> and panics with an index
  out of range.
\<close>

theorem Remove_never_inserted_panics:
  "panicked (run_new 1 [CallRemove (Some 7)] new_entries) = Some IndexOutOfRange"
  by code_simp

text \<open>
  C5, amended. On an empty store whose mutex is free, \<open>Pop\<close> returns
  \<open>ErrTimerEmpty\<close>; on an empty store \<open>Peek\<close> returns \<open>ErrTimerEmpty\<close>; on any store
  whose mutex is free, \<open>Remove\<close> of an entry whose index field is \<open>-1\<close> (set by an
  earlier \<open>Pop\<close> or \<open>Remove\<close>) returns \<open>ErrTimerNoItem\<close>. None of them panics, and
  \<open>cur\<close>, \<open>max\<close>, the backing array and every entry object are left as they were.
  \<open>Remove\<close> returns \<open>ErrTimerNoItem\<close> only for an entry whose index field is \<open>-1\<close>.
\<close>

theorem empty_store_errors:
  "(size_t t = 0 \<and> \<not> lock t \<longrightarrow>
      (\<exists>t'. Pop t m = Some (Inr ((None, Some ErrTimerEmpty), t', m))
             \<and> cur t' = cur t \<and> max_t t' = max_t t \<and> timers t' = timers t))
   \<and> (size_t t = 0 \<longrightarrow> Peek t m = Inr (None, Some ErrTimerEmpty))
   \<and> (\<not> lock t \<and> index (m e) = - 1 \<longrightarrow>
      (\<exists>t'. Remove (Some e) t m = Some (Inr ((None, Some ErrTimerNoItem), t', m))
             \<and> cur t' = cur t \<and> max_t t' = max_t t \<and> timers t' = timers t))
   \<and> (Remove (Some e) t m = Some (Inr ((r, Some ErrTimerNoItem), t1, m1))
        \<longrightarrow> index (m e) = - 1)"
proof -
  have e: "cur t <s 0" if "size_t t = 0"
    using that by (simp add: size_t_def word_sless_alt)
  have 1: "\<exists>t'. Pop t m = Some (Inr ((None, Some ErrTimerEmpty), t', m))
             \<and> cur t' = cur t \<and> max_t t' = max_t t \<and> timers t' = timers t"
    if "size_t t = 0" "\<not> lock t"
    using e that by (simp add: Pop_def)
  have 2: "Peek t m = Inr (None, Some ErrTimerEmpty)" if "size_t t = 0"
    using e that by (simp add: Peek_def)
  have 3: "\<exists>t'. Remove (Some e) t m = Some (Inr ((None, Some ErrTimerNoItem), t', m))
             \<and> cur t' = cur t \<and> max_t t' = max_t t \<and> timers t' = timers t"
    if "\<not> lock t" "index (m e) = - 1"
    using that by (simp add: Remove_def)
  show ?thesis using 1 2 3 Remove_NoItem_only [of e t m r t1 m1] by blast
qed

theorem empty_store_errors_witness:
  "size_t empty1 = 0 \<and> \<not> lock empty1 \<and> index (detached_mem 7) = - 1
   \<and> Remove (Some 7) empty1 detached_mem
       = Some (Inr ((None, Some ErrTimerNoItem), empty1\<lparr>lock := True\<rparr>, detached_mem))
   \<and> (\<exists>t'. Pop empty1 detached_mem = Some (Inr ((None, Some ErrTimerEmpty), t', detached_mem))
            \<and> cur t' = cur empty1 \<and> max_t t' = max_t empty1 \<and> timers t' = timers empty1)
   \<and> Peek empty1 detached_mem = Inr (None, Some ErrTimerEmpty)
   \<and> (\<exists>t'. Remove (Some 7) empty1 detached_mem
              = Some (Inr ((None, Some ErrTimerNoItem), t', detached_mem))
            \<and> cur t' = cur empty1 \<and> max_t t' = max_t empty1 \<and> timers t' = timers empty1)"
proof -
  have h1: "size_t empty1 = 0" by (simp add: size_t_def empty1_def)
  have h2: "\<not> lock empty1" by (simp add: empty1_def)
  have h3: "index (detached_mem 7) = - 1" by (simp add: detached_mem_def)
  have h4: "Remove (Some 7) empty1 detached_mem
       = Some (Inr ((None, Some ErrTimerNoItem), empty1\<lparr>lock := True\<rparr>, detached_mem))"
    using h2 h3 by (simp add: Remove_def)
  show ?thesis
    using empty_store_errors
      [of empty1 detached_mem 7 None "empty1\<lparr>lock := True\<rparr>" detached_mem] h1 h2 h3 h4
    by simp
qed

text \<open>
  C7. The mutex is not released on every return path. On the store made by
  \<open>NewTimer 1\<close>, \<open>Pop\<close> returns \<open>ErrTimerEmpty\<close> with the mutex held, and a \<open>Push\<close>
  that follows never returns. After \<open>Push\<close> and \<open>Pop\<close> of an entry, \<open>Remove\<close> of
  it returns \<open>ErrTimerNoItem\<close> with the mutex held. \<open>Peek\<close> does not take the
  mutex: called while it is held, it returns.
\<close>

theorem Pop_empty_keeps_lock:
  "returned (run_new 1 [CallPop] new_entries) = Some [RetItem None (Some ErrTimerEmpty)]
   \<and> final_timer (run_new 1 [CallPop] new_entries)
     = Some \<lparr>cur = - 1, max_t = 0, lock = True, timers = [None]\<rparr>
   \<and> never_returns (run_new 1 [CallPop, CallPush (Some 1)] new_entries)
   \<and> returned (run_new 1 [CallPush (Some 1), CallPop, CallRemove (Some 1)] new_entries)
     = Some [RetErr None, RetItem (Some 1) None, RetItem None (Some ErrTimerNoItem)]
   \<and> final_timer (run_new 1 [CallPush (Some 1), CallPop, CallRemove (Some 1)] new_entries)
     = Some \<lparr>cur = - 1, max_t = 0, lock = True, timers = [Some 1]\<rparr>
   \<and> returned (run_new 1 [CallPop, CallPeek] new_entries)
     = Some [RetItem None (Some ErrTimerEmpty), RetItem None (Some ErrTimerEmpty)]"
  by code_simp

section \<open>Remove\<close>

text \<open>
  C6. \<open>Remove\<close> reads \<open>item.index\<close> again after \<open>swap\<close> has moved the entry to slot
  \<open>cur\<close> and written \<open>cur\<close> into that field: \<open>down\<close> and \<open>up\<close> then sift the entry
  that is to be removed, and \<open>pop\<close> detaches whatever ends in slot \<open>cur\<close>. On a store
  made by \<open>NewTimer 2\<close>, after \<open>Push\<close> of the entries 1 and 2 (a heap that satisfies
  both invariants), \<open>Remove\<close> of entry 1 returns entry 2 with a \<open>nil\<close> error and
  leaves entry 1 in slot 0 with index 0. A second \<open>Remove\<close> of entry 1 succeeds
  instead of returning \<open>ErrTimerNoItem\<close>, and a \<open>Pop\<close> in its place returns entry 1.
\<close>

theorem Remove_detaches_other_entry:
  "final heap_property (run_new 2 [CallPush (Some 1), CallPush (Some 2)] new_entries)
     = Some True
   \<and> final slot_mirror (run_new 2 [CallPush (Some 1), CallPush (Some 2)] new_entries)
     = Some True
   \<and> final_timer (run_new 2 [CallPush (Some 1), CallPush (Some 2)] new_entries)
     = Some \<lparr>cur = 1, max_t = 1, lock = False, timers = [Some 1, Some 2]\<rparr>
   \<and> returned (run_new 2 [CallPush (Some 1), CallPush (Some 2), CallRemove (Some 1),
        CallRemove (Some 1)] new_entries)
     = Some [RetErr None, RetErr None, RetItem (Some 2) None, RetItem (Some 1) None]
   \<and> returned (run_new 2 [CallPush (Some 1), CallPush (Some 2), CallRemove (Some 1),
        CallPop] new_entries)
     = Some [RetErr None, RetErr None, RetItem (Some 2) None, RetItem (Some 1) None]
   \<and> final_timer (run_new 2 [CallPush (Some 1), CallPush (Some 2), CallRemove (Some 1)]
        new_entries)
     = Some \<lparr>cur = 0, max_t = 1, lock = False, timers = [Some 1, Some 2]\<rparr>
   \<and> final_obj (run_new 2 [CallPush (Some 1), CallPush (Some 2), CallRemove (Some 1)]
        new_entries) 1
     = Some \<lparr>Key = 1, Value = Some 1, index = 0\<rparr>
   \<and> final_obj (run_new 2 [CallPush (Some 1), CallPush (Some 2), CallRemove (Some 1)]
        new_entries) 2
     = Some \<lparr>Key = 2, Value = Some 2, index = - 1\<rparr>"
  by code_simp

theorem Remove_detaches_other_entry_witness:
  "returned (run_new 2 [CallPush (Some 1), CallPush (Some 2), CallRemove (Some 1),
        CallRemove (Some 1)] new_entries)
     \<noteq> Some [RetErr None, RetErr None, RetItem (Some 1) None,
          RetItem None (Some ErrTimerNoItem)]"
  using Remove_detaches_other_entry by simp

text \<open>
  C9. \<open>Remove\<close> acts on the slot that the index field of its argument names, whoever
  occupies it. There are a store that satisfies both invariants, an entry \<open>e\<close> that
  is not stored and whose index field names an occupied slot, and a different
  entry \<open>a\<close> in that slot, such that \<open>Remove e\<close> succeeds, returns \<open>a\<close> and detaches
  it. (The store is \<open>heap3\<close>, \<open>e\<close> is the never inserted object 7 with index 0, and
  \<open>a\<close> is entry 1 in slot 0.)
\<close>

theorem Remove_takes_slot_occupant:
  "\<exists>t m e a t' m'.
     \<not> lock t \<and> heap_property t m \<and> slot_mirror t m \<and> size_t t \<le> length (timers t)
     \<and> Some e \<notin> set (stored t)
     \<and> 0 \<le> sint (index (m e)) \<and> nat (sint (index (m e))) < size_t t
     \<and> timers t ! slot (index (m e)) = Some a \<and> a \<noteq> e
     \<and> Remove (Some e) t m = Some (Inr ((Some a, None), t', m'))
     \<and> Some a \<notin> set (stored t') \<and> size_t t' = size_t t - 1 \<and> index (m' a) = - 1"
proof -
  have 1: "returned (Remove (Some 7) heap3 heap3_mem) = Some (Some 1, None)"
    by code_simp
  have 2: "final_timer (Remove (Some 7) heap3 heap3_mem)
             = Some \<lparr>cur = 1, max_t = 2, lock = False, timers = [Some 2, Some 5, Some 1]\<rparr>"
    by code_simp
  have 3: "final_obj (Remove (Some 7) heap3 heap3_mem) 1
             = Some \<lparr>Key = 1, Value = Some 1, index = - 1\<rparr>"
    by code_simp
  from run_projections [OF 1 2 3] obtain m' where
    r: "Remove (Some 7) heap3 heap3_mem
          = Some (Inr ((Some 1, None),
              \<lparr>cur = 1, max_t = 2, lock = False, timers = [Some 2, Some 5, Some 1]\<rparr>, m'))"
    and o: "m' 1 = \<lparr>Key = 1, Value = Some 1, index = - 1\<rparr>"
    by blast
  have pre: "\<not> lock heap3 \<and> heap_property heap3 heap3_mem \<and> slot_mirror heap3 heap3_mem
      \<and> size_t heap3 \<le> length (timers heap3) \<and> Some 7 \<notin> set (stored heap3)
      \<and> 0 \<le> sint (index (heap3_mem 7)) \<and> nat (sint (index (heap3_mem 7))) < size_t heap3
      \<and> timers heap3 ! slot (index (heap3_mem 7)) = Some 1"
    by code_simp
  have post:
    "Some 1 \<notin> set (stored \<lparr>cur = 1, max_t = 2, lock = False,
                              timers = [Some 2, Some 5, Some 1]\<rparr>)
     \<and> size_t \<lparr>cur = 1, max_t = 2, lock = False, timers = [Some 2, Some 5, Some 1]\<rparr>
         = size_t heap3 - 1"
    by code_simp
  show ?thesis
    apply (rule exI [of _ heap3], rule exI [of _ heap3_mem], rule exI [of _ 7])
    apply (rule exI [of _ 1])
    apply (rule exI [of _ "\<lparr>cur = 1, max_t = 2, lock = False,
                            timers = [Some 2, Some 5, Some 1]\<rparr>"])
    apply (rule exI [of _ m'])
    using pre post r o by simp
qed

theorem Remove_takes_slot_occupant_witness:
  "\<exists>t m e a t' m'. a \<noteq> e \<and> Some e \<notin> set (stored t)
     \<and> Remove (Some e) t m = Some (Inr ((Some a, None), t', m'))"
  using Remove_takes_slot_occupant by blast

section \<open>The expiry loop\<close>

text \<open>
  C8. Two runs in which every call ends before the next begins, the clock reading
  10 at each iteration of \<open>process\<close>. After \<open>Push\<close> of the entries with deadlines 5
  and 3, the loop closes connection 5 and then connection 3: decreasing deadlines.
  After \<open>Push\<close> of the entries 1 and 2, \<open>Remove\<close> of entry 1 returns without error
  (it returns entry 2), and the next iteration closes the connection of entry 1.
\<close>

theorem process_fires_out_of_order:
  "returned (run_new 2 [CallPush (Some 5), CallPush (Some 3), Iterate 10, Iterate 10]
        new_entries)
     = Some [RetErr None, RetErr None, RetIter (Closed 5), RetIter (Closed 3)]
   \<and> returned (run_new 2 [CallPush (Some 1), CallPush (Some 2), CallRemove (Some 1),
        Iterate 10] new_entries)
     = Some [RetErr None, RetErr None, RetItem (Some 2) None, RetIter (Closed 1)]
   \<and> Value (new_entries 5) = Some 5 \<and> Value (new_entries 3) = Some 3
   \<and> Value (new_entries 1) = Some 1"
  by code_simp

section \<open>Pop returns the entries in deadline order\<close>

lemma heap_but_leaf:
  assumes "heap_but I N f" "N \<le> 2 * I + 1"
  shows "heap_on N f"
  unfolding heap_on_def
proof (intro allI impI)
  fix k assume k: "0 < k \<and> k < N"
  with assms(2) have "(k - 1) div 2 \<noteq> I" by auto
  with assms(1) k show "f ((k - 1) div 2) \<le> f k" by (simp add: heap_but_def)
qed

lemma heap_but_done:
  assumes "heap_but I N f" "\<forall>k. 0 < k \<and> k < N \<and> (k - 1) div 2 = I \<longrightarrow> f I \<le> f k"
  shows "heap_on N f"
  unfolding heap_on_def
proof (intro allI impI)
  fix k assume k: "0 < k \<and> k < N"
  show "f ((k - 1) div 2) \<le> f k"
  proof (cases "(k - 1) div 2 = I")
    case True with assms(2) k show ?thesis by auto
  next
    case False with assms(1) k show ?thesis by (simp add: heap_but_def)
  qed
qed

lemma heap_but_step:
  assumes hb: "heap_but I N f"
    and J: "J < N" "0 < J" "(J - 1) div 2 = I"
    and lt: "f J < f I"
    and mn: "\<forall>k. 0 < k \<and> k < N \<and> (k - 1) div 2 = I \<longrightarrow> f J \<le> f k"
    and f': "\<forall>k<N. f' k = (if k = J then f I else if k = I then f J else f k)"
  shows "heap_but J N f'"
proof -
  have IJ: "I < J" using J by auto
  have IN: "I < N" using IJ J by simp
  have A: "f' ((k - 1) div 2) \<le> f' k" if k: "0 < k" "k < N" "(k - 1) div 2 \<noteq> J" for k
  proof -
    let ?p = "(k - 1) div 2"
    have pN: "?p < N" using k by auto
    have pk: "?p < k" using k by auto
    show ?thesis
    proof (cases "k = J")
      case True
      then have "?p = I" using J by simp
      then show ?thesis using f' True J IN IJ lt by simp
    next
      case kJ: False
      show ?thesis
      proof (cases "k = I")
        case True
        then have I0: "0 < I" using k by simp
        have pI: "?p \<noteq> I" using pk True by simp
        have "f ((I - 1) div 2) \<le> f J" using hb J I0 by (auto simp: heap_but_def)
        then show ?thesis using f' True pN IN IJ pI k(3) by simp
      next
        case kI: False
        show ?thesis
        proof (cases "?p = I")
          case True
          then have "f J \<le> f k" using mn k by auto
          then show ?thesis using f' True kJ kI k IN IJ by simp
        next
          case False
          then have "f ?p \<le> f k" using hb k by (auto simp: heap_but_def)
          then show ?thesis using f' False kJ kI k pN by simp
        qed
      qed
    qed
  qed
  have B: "f' ((J - 1) div 2) \<le> f' k" if k: "0 < k" "k < N" "(k - 1) div 2 = J" for k
  proof -
    have kJ: "J < k" using k by auto
    have "(k - 1) div 2 \<noteq> I" using k IJ by simp
    then have "f J \<le> f k" using hb k by (auto simp: heap_but_def)
    then show ?thesis using f' J k kJ IJ IN by simp
  qed
  show ?thesis unfolding heap_but_def using A B by blast
qed

lemma heap_root_min: "heap_on N f \<Longrightarrow> k < N \<Longrightarrow> f 0 \<le> f k"
proof (induction k rule: less_induct)
  case (less k)
  show ?case
  proof (cases "k = 0")
    case True then show ?thesis by simp
  next
    case False
    then have p: "(k - 1) div 2 < k" by auto
    have "f 0 \<le> f ((k - 1) div 2)" using less.IH [OF p less.prems(1)] p less.prems(2) by simp
    moreover have "f ((k - 1) div 2) \<le> f k" using less.prems False by (simp add: heap_on_def)
    ultimately show ?thesis by simp
  qed
qed

lemma heap_on_mono: "heap_on N f \<Longrightarrow> M \<le> N \<Longrightarrow> heap_on M f"
  by (simp add: heap_on_def)

lemma heap_on_cong:
  assumes "heap_on N f" "\<forall>k<N. g k = f k"
  shows "heap_on N g"
  unfolding heap_on_def
proof (intro allI impI)
  fix k assume k: "0 < k \<and> k < N"
  then have "(k - 1) div 2 < N" by auto
  with assms k show "g ((k - 1) div 2) \<le> g k" by (simp add: heap_on_def)
qed

lemma sint_slot [simp]: "0 \<le> sint i \<Longrightarrow> int (slot i) = sint i"
  by (simp add: slot_def)

lemma in_range_slot: "0 \<le> sint i \<Longrightarrow> slot i < length xs \<Longrightarrow> in_range i xs"
  by (simp add: in_range_def slot_def)

lemma region_ok_mono: "region_ok N t m \<Longrightarrow> M \<le> N \<Longrightarrow> region_ok M t m"
  by (simp add: region_ok_def)

lemma region_ok_lock [simp]: "region_ok N (t\<lparr>lock := b\<rparr>) m = region_ok N t m"
  by (simp add: region_ok_def)

lemma keyf_lock [simp]: "keyf (t\<lparr>lock := b\<rparr>) m = keyf t m"
  by (simp add: keyf_def fun_eq_iff)

lemma region_distinct:
  assumes "region_ok N t m" "k < N" "l < N" "timers t ! k = timers t ! l"
  shows "k = l"
proof -
  from assms(1,2) obtain a where "timers t ! k = Some a" "sint (index (m a)) = int k"
    by (auto simp: region_ok_def)
  moreover from assms(1,3) obtain b where "timers t ! l = Some b" "sint (index (m b)) = int l"
    by (auto simp: region_ok_def)
  ultimately show ?thesis using assms(4) by simp
qed

lemma less_t_region:
  assumes "region_ok N t m" "0 \<le> sint i" "slot i < N" "0 \<le> sint j" "slot j < N"
  shows "less_t i j t m = Inr (keyf t m (slot i) < keyf t m (slot j))"
proof -
  from assms obtain a where a: "timers t ! slot i = Some a" by (auto simp: region_ok_def)
  from assms obtain b where b: "timers t ! slot j = Some b" by (auto simp: region_ok_def)
  have "in_range i (timers t)" "in_range j (timers t)"
    using assms by (auto intro!: in_range_slot simp: region_ok_def)
  then show ?thesis using a b by (simp add: less_t_def keyf_def word_sless_alt)
qed

lemma swap_region:
  assumes r: "region_ok N t m" and i: "0 \<le> sint i" "slot i < N" and j: "0 \<le> sint j" "slot j < N"
  shows "\<exists>t' m'. swap i j t m = Inr (t', m')
     \<and> timers t' = (timers t)[slot i := timers t ! slot j, slot j := timers t ! slot i]
     \<and> region_ok N t' m' \<and> sift_frame N t m t' m'"
proof -
  let ?ts = "timers t"
  let ?ts' = "?ts[slot i := ?ts ! slot j, slot j := ?ts ! slot i]"
  have len: "N \<le> length ?ts" using r by (simp add: region_ok_def)
  from r i obtain a where a: "?ts ! slot i = Some a" "sint (index (m a)) = int (slot i)"
    by (auto simp: region_ok_def)
  from r j obtain b where b: "?ts ! slot j = Some b" "sint (index (m b)) = int (slot j)"
    by (auto simp: region_ok_def)
  have rng: "in_range i ?ts" "in_range j ?ts"
    using i j len by (auto intro!: in_range_slot)
  have ti: "?ts' ! slot i = Some b" using i j len a b by (cases "slot i = slot j") auto
  have tj: "?ts' ! slot j = Some a" using i j len by (simp add: a)
  let ?m1 = "m(b := (m b)\<lparr>index := i\<rparr>)"
  let ?m' = "?m1(a := (?m1 a)\<lparr>index := j\<rparr>)"
  let ?t' = "t\<lparr>timers := ?ts'\<rparr>"
  have sw: "swap i j t m = Inr (?t', ?m')"
    using rng ti tj by (simp add: swap_def Let_def)
  have ab: "a = b \<longleftrightarrow> slot i = slot j"
    using a b by auto
  have reg: "region_ok N ?t' ?m'"
    unfolding region_ok_def
  proof (intro conjI allI impI)
    show "N \<le> length (timers ?t')" using len by simp
  next
    fix k assume k: "k < N"
    from r k obtain c where c: "?ts ! k = Some c" "sint (index (m c)) = int k"
      by (auto simp: region_ok_def)
    show "\<exists>x. timers ?t' ! k = Some x \<and> sint (index (?m' x)) = int k"
    proof (cases "k = slot j")
      case True
      then show ?thesis using tj j by simp
    next
      case kj: False
      show ?thesis
      proof (cases "k = slot i")
        case True
        then show ?thesis using ti i kj ab by auto
      next
        case ki: False
        have "c \<noteq> a" "c \<noteq> b" using a b c ki kj by auto
        then show ?thesis using c ki kj by simp
      qed
    qed
  qed
  have tk: "take N ?ts' = (take N ?ts)[slot i := take N ?ts ! slot j, slot j := take N ?ts ! slot i]"
    using i j by (simp add: take_update_swap)
  have "mset ((take N ?ts)[slot i := take N ?ts ! slot j, slot j := take N ?ts ! slot i])
          = mset (take N ?ts)"
    by (rule mset_swap) (use i j len in auto)
  then have ms: "mset (take N ?ts') = mset (take N ?ts)"
    by (simp only: tk)
  have dr: "drop N ?ts' = drop N ?ts" using i j by simp
  have fr: "sift_frame N t m ?t' ?m'"
    unfolding sift_frame_def same_data_def
  proof (intro conjI allI impI)
    fix c assume c: "Some c \<notin> set (take N ?ts)"
    have "Some a \<in> set (take N ?ts)" "Some b \<in> set (take N ?ts)"
      using a b i j len by (auto simp: in_set_conv_nth intro: exI [of _ "slot i"] exI [of _ "slot j"])
    then have "c \<noteq> a" "c \<noteq> b" using c by auto
    then show "?m' c = m c" by simp
  qed (use ms dr in auto)
  show ?thesis using sw reg fr by auto
qed

lemma sift_frame_refl: "sift_frame N t m t m"
  by (simp add: sift_frame_def same_data_def)

lemma sift_frame_trans:
  assumes "sift_frame N t m t1 m1" "sift_frame N t1 m1 t2 m2"
  shows "sift_frame N t m t2 m2"
proof -
  have "set (take N (timers t1)) = set (take N (timers t))"
    using assms(1) by (auto simp: sift_frame_def dest: mset_eq_setD)
  then show ?thesis
    using assms by (simp add: sift_frame_def same_data_def)
qed

lemma keyf_nth:
  assumes "\<And>a. Key (m' a) = Key (m a)" "timers t' ! k = timers t ! l"
  shows "keyf t' m' k = keyf t m l"
  using assms by (simp add: keyf_def split: option.split)

lemma keyf_swapped:
  assumes "sift_frame N t m t' m'"
    and "timers t' = (timers t)[I := timers t ! J, J := timers t ! I]"
    and "I < length (timers t)" "J < length (timers t)" "k < length (timers t)"
  shows "keyf t' m' k = (if k = J then keyf t m I else if k = I then keyf t m J else keyf t m k)"
proof -
  have sd: "\<And>a. Key (m' a) = Key (m a)"
    using assms(1) by (simp add: sift_frame_def same_data_def)
  have "timers t' ! k = timers t ! (if k = J then I else if k = I then J else k)"
    using assms(2-) by (simp add: nth_list_update)
  from keyf_nth [of m' m t' k t, OF sd this] show ?thesis by simp
qed

lemma keyf_same:
  assumes "same_data m m'" "timers t' = timers t"
  shows "keyf t' m' = keyf t m"
proof
  fix k
  show "keyf t' m' k = keyf t m k"
    by (rule keyf_nth) (use assms in \<open>simp_all add: same_data_def\<close>)
qed

lemma children:
  "0 < k \<Longrightarrow> (k - 1) div 2 = I \<longleftrightarrow> k = 2 * I + 1 \<or> k = 2 * I + 2" for k I :: nat
  by auto

lemma down_child_min:
  assumes r: "region_ok N t m" and i: "0 \<le> sint i" and n: "0 \<le> sint n" "nat (sint n) = N"
    and go: "\<not> (n \<le>s 2 * i + 1 \<or> 2 * i + 1 <s 0)"
  shows "\<exists>j. down_child (2 * i + 1) n t m = Inr j \<and> 0 \<le> sint j \<and> slot j < N \<and> 0 < slot j
     \<and> (slot j - 1) div 2 = slot i
     \<and> (\<forall>k. 0 < k \<and> k < N \<and> (k - 1) div 2 = slot i \<longrightarrow> keyf t m (slot j) \<le> keyf t m k)"
proof -
  let ?j1 = "2 * i + 1" and ?f = "keyf t m"
  from go have g: "sint ?j1 < sint n" "0 \<le> sint ?j1" by (auto simp: word_sle_eq word_sless_alt)
  with sint_child [OF i] have s1: "sint ?j1 = 2 * sint i + 1" by auto
  have nb: "sint n < 2 ^ 63" using sint_lt [of n] by simp
  have s2: "sint (?j1 + 1) = 2 * sint i + 2" using sint_add1 [of ?j1] g nb s1 by simp
  have sl1: "slot ?j1 = 2 * slot i + 1" using s1 i by (simp add: slot_def nat_add_distrib nat_mult_distrib)
  have sl2: "slot (?j1 + 1) = 2 * slot i + 2" using s2 i by (simp add: slot_def nat_add_distrib nat_mult_distrib)
  have j1N: "slot ?j1 < N" using g n unfolding slot_def by linarith
  have ch: "(k - 1) div 2 = slot i \<longleftrightarrow> k = slot ?j1 \<or> k = slot (?j1 + 1)" if "0 < k" for k
    unfolding sl1 sl2 using that by (rule children)
  show ?thesis
  proof (cases "?j1 + 1 <s n")
    case False
    then have "sint n \<le> sint (?j1 + 1)" by (simp only: word_sless_alt not_less)
    then have "N \<le> slot (?j1 + 1)" using n s2 i unfolding slot_def by linarith
    then have mn: "\<forall>k. 0 < k \<and> k < N \<and> (k - 1) div 2 = slot i \<longrightarrow> ?f (slot ?j1) \<le> ?f k"
      using ch by auto
    have "down_child ?j1 n t m = Inr ?j1" using False by (simp add: down_child_def Let_def)
    then show ?thesis using g j1N sl1 mn by auto
  next
    case True
    then have "sint (?j1 + 1) < sint n" by (simp only: word_sless_alt)
    then have j2N: "slot (?j1 + 1) < N" using n s2 i unfolding slot_def by linarith
    have p2: "0 \<le> sint (?j1 + 1)" using s2 i by simp
    have ls: "less_t ?j1 (?j1 + 1) t m = Inr (?f (slot ?j1) < ?f (slot (?j1 + 1)))"
      by (rule less_t_region [OF r g(2) j1N p2 j2N])
    show ?thesis
    proof (cases "?f (slot ?j1) < ?f (slot (?j1 + 1))")
      case lt: True
      then have mn: "\<forall>k. 0 < k \<and> k < N \<and> (k - 1) div 2 = slot i \<longrightarrow> ?f (slot ?j1) \<le> ?f k"
        using ch by auto
      have "down_child ?j1 n t m = Inr ?j1" using True ls lt by (simp add: down_child_def Let_def)
      then show ?thesis using g j1N sl1 mn by auto
    next
      case ge: False
      then have mn: "\<forall>k. 0 < k \<and> k < N \<and> (k - 1) div 2 = slot i \<longrightarrow> ?f (slot (?j1 + 1)) \<le> ?f k"
        using ch by auto
      have "down_child ?j1 n t m = Inr (?j1 + 1)" using True ls ge by (simp add: down_child_def Let_def)
      then show ?thesis using p2 j2N sl2 mn by auto
    qed
  qed
qed

lemma down_stop_leaf:
  assumes i: "0 \<le> sint i" and n: "0 \<le> sint n" "nat (sint n) = N"
    and st: "n \<le>s 2 * i + 1 \<or> 2 * i + 1 <s 0"
  shows "N \<le> 2 * slot i + 1"
proof -
  have nb: "sint n < 2 ^ 63" using sint_lt [of n] by simp
  have iI: "int (slot i) = sint i" using i by (simp add: slot_def)
  have iN: "int N = sint n" using n by simp
  from sint_child [OF i] have "sint n \<le> 2 * sint i + 1"
  proof
    assume "sint (2 * i + 1) < 0 \<and> 2 ^ 63 \<le> 2 * sint i + 1"
    then show ?thesis using nb by linarith
  next
    assume e: "sint (2 * i + 1) = 2 * sint i + 1"
    with i st show ?thesis by (auto simp: word_sle_eq word_sless_alt)
  qed
  then show ?thesis using iI iN by linarith
qed

lemma down_heap:
  assumes "region_ok N t m" "0 \<le> sint i" "0 \<le> sint n" "nat (sint n) = N"
    "heap_but (slot i) N (keyf t m)"
  shows "\<exists>t' m'. down i n t m = Some (Inr (t', m')) \<and> region_ok N t' m'
     \<and> heap_on N (keyf t' m') \<and> sift_frame N t m t' m'"
  using assms
proof (induction "N - slot i" arbitrary: i t m rule: less_induct)
  case less
  note r = less.prems(1) and i = less.prems(2) and n = less.prems(3,4) and hb = less.prems(5)
  let ?j1 = "2 * i + 1" and ?f = "keyf t m"
  show ?case
  proof (cases "n \<le>s ?j1 \<or> ?j1 <s 0")
    case True
    have "heap_on N ?f"
      by (rule heap_but_leaf [OF hb down_stop_leaf [OF i n True]])
    moreover have "down i n t m = Some (Inr (t, m))"
      using True by (subst down.simps) (simp add: Let_def)
    ultimately show ?thesis using r sift_frame_refl by blast
  next
    case go: False
    from down_child_min [OF r i n go] obtain j where
      ch: "down_child ?j1 n t m = Inr j" and j: "0 \<le> sint j" "slot j < N" "0 < slot j"
      and pj: "(slot j - 1) div 2 = slot i"
      and mn: "\<forall>k. 0 < k \<and> k < N \<and> (k - 1) div 2 = slot i \<longrightarrow> ?f (slot j) \<le> ?f k"
      by blast
    have ij: "slot i < slot j" using pj j(3) by auto
    then have iN: "slot i < N" using j(2) by simp
    have ls: "less_t j i t m = Inr (?f (slot j) < ?f (slot i))"
      by (rule less_t_region [OF r j(1,2) i iN])
    show ?thesis
    proof (cases "?f (slot j) < ?f (slot i)")
      case False
      have "\<forall>k. 0 < k \<and> k < N \<and> (k - 1) div 2 = slot i \<longrightarrow> ?f (slot i) \<le> ?f k"
        using mn False by force
      then have "heap_on N ?f" by (rule heap_but_done [OF hb])
      moreover have "down i n t m = Some (Inr (t, m))"
        using go ch ls False by (subst down.simps) (simp add: Let_def)
      ultimately show ?thesis using r sift_frame_refl by blast
    next
      case lt: True
      from swap_region [OF r i iN j(1,2)] obtain t1 m1 where
        sw: "swap i j t m = Inr (t1, m1)"
        and ts: "timers t1 = (timers t)[slot i := timers t ! slot j, slot j := timers t ! slot i]"
        and r1: "region_ok N t1 m1" and fr1: "sift_frame N t m t1 m1"
        by blast
      have len: "N \<le> length (timers t)" using r by (simp add: region_ok_def)
      have f1: "\<forall>k<N. keyf t1 m1 k
                  = (if k = slot j then ?f (slot i) else if k = slot i then ?f (slot j) else ?f k)"
        using keyf_swapped [OF fr1 ts] iN j(2) len by simp
      have hb1: "heap_but (slot j) N (keyf t1 m1)"
        by (rule heap_but_step [OF hb j(2,3) pj lt mn f1])
      have dec: "N - slot j < N - slot i" using ij j(2) by simp
      from less.hyps [OF dec r1 j(1) n hb1] obtain t2 m2 where
        d: "down j n t1 m1 = Some (Inr (t2, m2))" and r2: "region_ok N t2 m2"
        and h2: "heap_on N (keyf t2 m2)" and fr2: "sift_frame N t1 m1 t2 m2"
        by blast
      have "down i n t m = Some (Inr (t2, m2))"
        using go ch ls lt sw d by (subst down.simps) (simp add: Let_def)
      then show ?thesis using r2 h2 sift_frame_trans [OF fr1 fr2] by blast
    qed
  qed
qed

lemma Pop_correct:
  assumes r: "region_ok (Suc C) t m" and c: "sint (cur t) = int C" and l: "\<not> lock t"
    and h: "heap_on (Suc C) (keyf t m)"
  shows "\<exists>a t' m'. Pop t m = Some (Inr ((Some a, None), t', m'))
     \<and> timers t ! 0 = Some a
     \<and> sint (cur t') = int C - 1 \<and> \<not> lock t'
     \<and> region_ok C t' m' \<and> heap_on C (keyf t' m')
     \<and> mset (take (Suc C) (timers t)) = add_mset (Some a) (mset (take C (timers t')))
     \<and> Some a \<notin> set (take C (timers t'))
     \<and> same_data m m' \<and> index (m' a) = - 1
     \<and> (\<forall>b. Some b \<notin> set (take (Suc C) (timers t)) \<longrightarrow> m' b = m b)"
proof -
  let ?t1 = "t\<lparr>lock := True\<rparr>" and ?f = "keyf t m"
  have len: "Suc C \<le> length (timers t)" using r by (simp add: region_ok_def)
  have c0: "0 \<le> sint (cur t)" and sc: "slot (cur t) = C" using c by (simp_all add: slot_def)
  have ne: "\<not> cur ?t1 <s 0" using c0 by (simp add: word_sless_alt)
  have r1: "region_ok (Suc C) ?t1 m" using r by simp
  have z: "0 \<le> sint (0 :: go_int)" "slot 0 = 0" by (simp_all add: slot_def)
  from r obtain a where a: "timers t ! 0 = Some a" by (auto simp: region_ok_def)
  from swap_region [of "Suc C" ?t1 m 0 "cur t"] r1 z c0 sc obtain t2 m2 where
    sw: "swap 0 (cur t) ?t1 m = Inr (t2, m2)"
    and ts: "timers t2 = (timers t)[0 := timers t ! C, C := timers t ! 0]"
    and r2: "region_ok (Suc C) t2 m2" and fr2: "sift_frame (Suc C) ?t1 m t2 m2"
    by auto
  have cur2: "cur t2 = cur t" and lk2: "lock t2" and mx2: "max_t t2 = max_t t"
    and len2: "length (timers t2) = length (timers t)"
    using fr2 by (simp_all add: sift_frame_def)
  have tC: "timers t2 ! C = Some a" using ts len a by simp
  have f2: "keyf t2 m2 k = (if k = C then ?f 0 else if k = 0 then ?f C else ?f k)"
    if "k < Suc C" for k
  proof -
    have ts1: "timers t2 = (timers ?t1)[0 := timers ?t1 ! C, C := timers ?t1 ! 0]"
      using ts by simp
    have "0 < length (timers ?t1)" "C < length (timers ?t1)" "k < length (timers ?t1)"
      using len that by auto
    from keyf_swapped [OF fr2 ts1 this] show ?thesis by simp
  qed
  have hb: "heap_but 0 C (keyf t2 m2)"
    unfolding heap_but_def
  proof (intro conjI allI impI)
    fix k assume k: "0 < k \<and> k < C \<and> (k - 1) div 2 \<noteq> 0"
    then have p: "(k - 1) div 2 < C" by auto
    have "?f ((k - 1) div 2) \<le> ?f k" using h k by (simp add: heap_on_def)
    then show "keyf t2 m2 ((k - 1) div 2) \<le> keyf t2 m2 k"
      using f2 [of k] f2 [of "(k - 1) div 2"] k p by simp
  qed simp
  have rC: "region_ok C t2 m2" using r2 by (rule region_ok_mono) simp
  from down_heap [OF rC z(1), of "cur t2"] hb c0 sc cur2 z(2) c obtain t3 m3 where
    d: "down 0 (cur t2) t2 m2 = Some (Inr (t3, m3))" and r3: "region_ok C t3 m3"
    and h3: "heap_on C (keyf t3 m3)" and fr3: "sift_frame C t2 m2 t3 m3"
    by auto
  have cur3: "cur t3 = cur t" and lk3: "lock t3"
    and len3: "length (timers t3) = length (timers t)"
    using fr3 cur2 lk2 len2 by (simp_all add: sift_frame_def)
  have "drop C (timers t3) ! 0 = drop C (timers t2) ! 0"
    using fr3 by (simp add: sift_frame_def)
  then have t3C: "timers t3 ! C = Some a" using tC len len2 len3 by simp
  have st3: "set (take C (timers t3)) = set (take C (timers t2))"
    using fr3 by (auto simp: sift_frame_def dest: mset_eq_setD)
  have notin2: "Some a \<notin> set (take C (timers t2))"
  proof
    assume "Some a \<in> set (take C (timers t2))"
    then obtain k where k: "k < C" "timers t2 ! k = Some a"
      using len len2 by (auto simp: in_set_conv_nth)
    with region_distinct [OF r2, of k C] tC show False by simp
  qed
  let ?t4 = "t3\<lparr>cur := cur t3 - 1\<rparr>" and ?m4 = "m3(a := (m3 a)\<lparr>index := - 1\<rparr>)"
  have rng: "in_range (cur t3) (timers t3)"
    using c0 sc len len3 cur3 by (auto intro!: in_range_slot)
  have pp: "pop t3 m3 = Inr (a, ?t4, ?m4)"
    using rng t3C sc cur3 by (simp add: pop_def)
  have P: "Pop t m = Some (Inr ((Some a, None), ?t4\<lparr>lock := False\<rparr>, ?m4))"
    using l ne sw d pp cur2 by (simp add: Pop_def Let_def)
  have c4: "sint (cur (?t4\<lparr>lock := False\<rparr>)) = int C - 1"
    using sint_sub1 [OF c0] c cur3 by simp
  have r4: "region_ok C (?t4\<lparr>lock := False\<rparr>) ?m4"
    unfolding region_ok_def
  proof (intro conjI allI impI)
    show "C \<le> length (timers (?t4\<lparr>lock := False\<rparr>))" using len len3 by simp
  next
    fix k assume k: "k < C"
    from r3 k obtain b where b: "timers t3 ! k = Some b" "sint (index (m3 b)) = int k"
      by (auto simp: region_ok_def)
    have "Some b \<in> set (take C (timers t3))"
      using b k len len3 by (auto simp: in_set_conv_nth intro!: exI [of _ k])
    then have "b \<noteq> a" using notin2 st3 by auto
    then show "\<exists>x. timers (?t4\<lparr>lock := False\<rparr>) ! k = Some x \<and> sint (index (?m4 x)) = int k"
      using b by simp
  qed
  have sd3: "same_data m m3"
    using fr2 fr3 by (simp add: sift_frame_def same_data_def)
  then have sd4: "same_data m ?m4" by (simp add: same_data_def)
  have "same_data m3 ?m4" by (simp add: same_data_def)
  then have "keyf (?t4\<lparr>lock := False\<rparr>) ?m4 = keyf t3 m3" by (rule keyf_same) simp
  then have h4: "heap_on C (keyf (?t4\<lparr>lock := False\<rparr>) ?m4)" using h3 by simp
  have "take (Suc C) (timers t2) = take C (timers t2) @ [Some a]"
    using tC len len2 by (simp add: take_Suc_conv_app_nth)
  moreover have "mset (take (Suc C) (timers t2)) = mset (take (Suc C) (timers t))"
    using fr2 by (simp add: sift_frame_def)
  moreover have "mset (take C (timers t3)) = mset (take C (timers t2))"
    using fr3 by (simp add: sift_frame_def)
  ultimately have ms: "mset (take (Suc C) (timers t))
      = add_mset (Some a) (mset (take C (timers (?t4\<lparr>lock := False\<rparr>))))"
    by simp
  have fr: "\<forall>b. Some b \<notin> set (take (Suc C) (timers t)) \<longrightarrow> ?m4 b = m b"
  proof (intro allI impI)
    fix b assume b: "Some b \<notin> set (take (Suc C) (timers t))"
    have s2: "set (take (Suc C) (timers t2)) = set (take (Suc C) (timers t))"
      using fr2 by (auto simp: sift_frame_def dest: mset_eq_setD)
    have "Some a \<in> set (take (Suc C) (timers t))"
      using a len by (auto simp: in_set_conv_nth intro!: exI [of _ 0])
    then have ba: "b \<noteq> a" using b by auto
    have m2: "m2 b = m b" using fr2 b by (simp add: sift_frame_def)
    have "set (take C (timers t2)) \<subseteq> set (take (Suc C) (timers t2))"
      by (rule set_take_subset_set_take) simp
    then have "Some b \<notin> set (take C (timers t2))" using b s2 by auto
    then have "m3 b = m2 b" using fr3 by (simp add: sift_frame_def)
    then show "?m4 b = m b" using ba m2 by simp
  qed
  have n4: "Some a \<notin> set (take C (timers (?t4\<lparr>lock := False\<rparr>)))"
    using notin2 st3 by simp
  show ?thesis
    apply (rule exI [of _ a], rule exI [of _ "?t4\<lparr>lock := False\<rparr>"], rule exI [of _ ?m4])
    using P a c4 r4 h4 ms n4 sd4 fr by simp
qed

lemma run_Pop_Suc:
  assumes "Pop t m = Some (Inr ((Some a, None), t1, m1))"
    "run (replicate C CallPop) t1 m1 = Some (Inr (rs, t', m'))"
  shows "run (replicate (Suc C) CallPop) t m = Some (Inr (RetItem (Some a) None # rs, t', m'))"
  using assms by simp

lemma Pop_run:
  assumes "region_ok N t m" "sint (cur t) = int N - 1" "\<not> lock t" "heap_on N (keyf t m)"
  shows "\<exists>as t' m'. run (replicate N CallPop) t m
        = Some (Inr (map (\<lambda>a. RetItem (Some a) None) as, t', m'))
     \<and> mset (map Some as) = mset (take N (timers t))
     \<and> sorted_wrt (\<lambda>a b. sint (Key (m a)) \<le> sint (Key (m b))) as
     \<and> same_data m m' \<and> (\<forall>a\<in>set as. index (m' a) = - 1)
     \<and> sint (cur t') = - 1 \<and> \<not> lock t'
     \<and> (\<forall>b. Some b \<notin> set (take N (timers t)) \<longrightarrow> m' b = m b)"
  using assms
proof (induction N arbitrary: t m)
  case 0
  have "run (replicate 0 CallPop) t m = Some (Inr (map (\<lambda>a. RetItem (Some a) None) [], t, m))"
    by simp
  then show ?case using 0 by (intro exI [of _ "[]"] exI [of _ t] exI [of _ m]) (simp add: same_data_def)
next
  case (Suc C)
  from Pop_correct [OF Suc.prems(1) _ Suc.prems(3,4)] Suc.prems(2) obtain a t1 m1 where
    P: "Pop t m = Some (Inr ((Some a, None), t1, m1))" and a0: "timers t ! 0 = Some a"
    and c1: "sint (cur t1) = int C - 1" and l1: "\<not> lock t1"
    and r1: "region_ok C t1 m1" and h1: "heap_on C (keyf t1 m1)"
    and ms: "mset (take (Suc C) (timers t)) = add_mset (Some a) (mset (take C (timers t1)))"
    and na: "Some a \<notin> set (take C (timers t1))"
    and sd: "same_data m m1" and ia: "index (m1 a) = - 1"
    and fr: "\<forall>b. Some b \<notin> set (take (Suc C) (timers t)) \<longrightarrow> m1 b = m b"
    by auto
  from Suc.IH [OF r1 c1 l1 h1] obtain as t' m' where
    R: "run (replicate C CallPop) t1 m1 = Some (Inr (map (\<lambda>a. RetItem (Some a) None) as, t', m'))"
    and ms': "mset (map Some as) = mset (take C (timers t1))"
    and so: "sorted_wrt (\<lambda>a b. sint (Key (m1 a)) \<le> sint (Key (m1 b))) as"
    and sd': "same_data m1 m'" and ix: "\<forall>a\<in>set as. index (m' a) = - 1"
    and c': "sint (cur t') = - 1" and l': "\<not> lock t'"
    and fr': "\<forall>b. Some b \<notin> set (take C (timers t1)) \<longrightarrow> m' b = m1 b"
    by blast
  have key1: "\<And>b. Key (m1 b) = Key (m b)" using sd by (simp add: same_data_def)
  have len: "Suc C \<le> length (timers t)" using Suc.prems(1) by (simp add: region_ok_def)
  have "set_mset (mset (take (Suc C) (timers t)))
          = set_mset (add_mset (Some a) (mset (take C (timers t1))))"
    by (simp only: ms)
  then have sub: "set (take C (timers t1)) \<subseteq> set (take (Suc C) (timers t))"
    by auto
  have mn: "sint (Key (m a)) \<le> sint (Key (m b))" if "b \<in> set as" for b
  proof -
    have "Some b \<in> set (map Some as)" using that by simp
    moreover have "set (map Some as) = set (take C (timers t1))"
      by (rule mset_eq_setD [OF ms'])
    ultimately have "Some b \<in> set (take C (timers t1))" by simp
    then have "Some b \<in> set (take (Suc C) (timers t))" using sub by auto
    then obtain k where k: "k < Suc C" "timers t ! k = Some b"
      using len by (auto simp: in_set_conv_nth)
    from heap_root_min [OF Suc.prems(4) k(1)] show ?thesis
      using a0 k(2) by (simp add: keyf_def)
  qed
  have R': "run (replicate (Suc C) CallPop) t m
      = Some (Inr (map (\<lambda>a. RetItem (Some a) None) (a # as), t', m'))"
    using run_Pop_Suc [OF P R] by simp
  have m1: "mset (map Some (a # as)) = mset (take (Suc C) (timers t))"
    using ms ms' by simp
  have s1: "sorted_wrt (\<lambda>a b. sint (Key (m a)) \<le> sint (Key (m b))) (a # as)"
    using so mn by (simp add: key1)
  have d1: "same_data m m'" using sd sd' by (simp add: same_data_def)
  have "m' a = m1 a" using fr' na by simp
  then have i1: "\<forall>b\<in>set (a # as). index (m' b) = - 1" using ix ia by simp
  have f1: "\<forall>b. Some b \<notin> set (take (Suc C) (timers t)) \<longrightarrow> m' b = m b"
    using fr fr' sub by auto
  show ?case
    apply (rule exI [of _ "a # as"], rule exI [of _ t'], rule exI [of _ m'])
    using R' m1 s1 d1 i1 c' l' f1 by (intro conjI) assumption+
qed

lemma sint_word_of_nat: "k < 2 ^ 63 \<Longrightarrow> sint (word_of_nat k :: 64 word) = int k"
proof -
  assume k: "k < 2 ^ 63"
  have ik: "int k < 2 ^ 63" using k by (metis of_nat_less_iff of_nat_numeral of_nat_power)
  have "sint (word_of_nat k :: 64 word) = signed_take_bit 63 (int k)"
    by (simp add: signed_of_nat)
  also have "\<dots> = int k"
    by (rule signed_take_bit_int_eq_self) (use ik in simp_all)
  finally show ?thesis .
qed

lemma size_t_bound: "int (size_t t) \<le> 2 ^ 63"
proof -
  have "sint (cur t) < 2 ^ 63" using sint_lt [of "cur t"] by simp
  then show ?thesis by (simp add: size_t_def)
qed

lemma region_from_mirror:
  assumes "slot_mirror t m" "size_t t \<le> length (timers t)"
  shows "region_ok (size_t t) t m"
  unfolding region_ok_def
proof (intro conjI allI impI)
  fix k assume k: "k < size_t t"
  then have "int k < 2 ^ 63" using size_t_bound [of t] by linarith
  then have kb: "k < 2 ^ 63" by (metis of_nat_less_iff of_nat_numeral of_nat_power)
  from k have "k \<in> {0 ..< size_t t}" by simp
  with assms(1) have c: "case timers t ! k of Some a \<Rightarrow> index (m a) = word_of_nat k | None \<Rightarrow> False"
    unfolding slot_mirror_def by blast
  show "\<exists>a. timers t ! k = Some a \<and> sint (index (m a)) = int k"
  proof (cases "timers t ! k")
    case None
    with c show ?thesis by simp
  next
    case (Some a)
    with c have "index (m a) = word_of_nat k" by simp
    then show ?thesis using Some sint_word_of_nat [OF kb] by simp
  qed
qed (rule assms(2))

lemma heap_from_property:
  assumes "heap_property t m"
  shows "heap_on (size_t t) (keyf t m)"
  unfolding heap_on_def
proof (intro allI impI)
  fix k assume k: "0 < k \<and> k < size_t t"
  then have "k \<in> {1 ..< size_t t}" by simp
  with assms have "case (timers t ! ((k - 1) div 2), timers t ! k) of
          (Some p, Some c) \<Rightarrow> Key (m p) \<le>s Key (m c) | _ \<Rightarrow> False"
    unfolding heap_property_def by blast
  then show "keyf t m ((k - 1) div 2) \<le> keyf t m k"
    by (auto simp: keyf_def word_sle_eq split: option.splits)
qed

text \<open>
  C3. Take a store whose mutex is free, whose \<open>size\<close> occupied slots lie within the
  backing array, and which satisfies the min-heap property and the slot mirror.
  Then \<open>size\<close> calls of \<open>Pop\<close> all succeed; the entries they return are exactly the
  stored entries (as multisets), in nondecreasing order of \<open>Key\<close>; each returned
  entry has \<open>index = -1\<close> afterwards and its \<open>Key\<close> and \<open>Value\<close> unchanged; and the
  store is empty at the end.
\<close>

theorem Pop_all_nondecreasing:
  assumes "\<not> lock t" "size_t t \<le> length (timers t)" "heap_property t m" "slot_mirror t m"
  shows "\<exists>as t' m'. run (replicate (size_t t) CallPop) t m
        = Some (Inr (map (\<lambda>a. RetItem (Some a) None) as, t', m'))
     \<and> mset (map Some as) = mset (stored t)
     \<and> sorted_wrt (\<lambda>a b. Key (m a) \<le>s Key (m b)) as
     \<and> (\<forall>a\<in>set as. index (m' a) = - 1 \<and> Key (m' a) = Key (m a) \<and> Value (m' a) = Value (m a))
     \<and> size_t t' = 0"
proof (cases "size_t t = 0")
  case True
  have "run (replicate (size_t t) CallPop) t m
      = Some (Inr (map (\<lambda>a. RetItem (Some a) None) [], t, m))"
    using True by simp
  then show ?thesis
    using True by (intro exI [of _ "[]"] exI [of _ t] exI [of _ m]) (simp add: stored_def)
next
  case False
  then have c: "sint (cur t) = int (size_t t) - 1" by (simp add: size_t_def)
  from Pop_run [OF region_from_mirror [OF assms(4,2)] c assms(1) heap_from_property [OF assms(3)]]
  obtain as t' m' where
    R: "run (replicate (size_t t) CallPop) t m
        = Some (Inr (map (\<lambda>a. RetItem (Some a) None) as, t', m'))"
    and ms: "mset (map Some as) = mset (take (size_t t) (timers t))"
    and so: "sorted_wrt (\<lambda>a b. sint (Key (m a)) \<le> sint (Key (m b))) as"
    and sd: "same_data m m'" and ix: "\<forall>a\<in>set as. index (m' a) = - 1"
    and c': "sint (cur t') = - 1"
    by blast
  have s: "sorted_wrt (\<lambda>a b. Key (m a) \<le>s Key (m b)) as"
    using so by (simp add: word_sle_eq)
  have z: "size_t t' = 0" using c' by (simp add: size_t_def)
  show ?thesis
    apply (rule exI [of _ as], rule exI [of _ t'], rule exI [of _ m'])
    using R ms s sd ix z by (simp add: stored_def same_data_def)
qed

theorem Pop_all_nondecreasing_witness:
  "\<not> lock heap3 \<and> size_t heap3 \<le> length (timers heap3) \<and> heap_property heap3 heap3_mem
   \<and> slot_mirror heap3 heap3_mem
   \<and> returned (run (replicate (size_t heap3) CallPop) heap3 heap3_mem)
       = Some [RetItem (Some 1) None, RetItem (Some 2) None, RetItem (Some 5) None]
   \<and> (\<exists>as t' m'. run (replicate (size_t heap3) CallPop) heap3 heap3_mem
          = Some (Inr (map (\<lambda>a. RetItem (Some a) None) as, t', m'))
        \<and> mset (map Some as) = mset (stored heap3)
        \<and> sorted_wrt (\<lambda>a b. Key (heap3_mem a) \<le>s Key (heap3_mem b)) as
        \<and> size_t t' = 0)"
proof -
  have h: "\<not> lock heap3" "size_t heap3 \<le> length (timers heap3)"
    "heap_property heap3 heap3_mem" "slot_mirror heap3 heap3_mem"
    by (code_simp, code_simp, code_simp, code_simp)
  have e: "returned (run (replicate (size_t heap3) CallPop) heap3 heap3_mem)
       = Some [RetItem (Some 1) None, RetItem (Some 2) None, RetItem (Some 5) None]"
    by code_simp
  from Pop_all_nondecreasing [OF h] obtain as t' m' where
    "run (replicate (size_t heap3) CallPop) heap3 heap3_mem
          = Some (Inr (map (\<lambda>a. RetItem (Some a) None) as, t', m'))
        \<and> mset (map Some as) = mset (stored heap3)
        \<and> sorted_wrt (\<lambda>a b. Key (heap3_mem a) \<le>s Key (heap3_mem b)) as
        \<and> size_t t' = 0"
    by blast
  then show ?thesis using h e by blast
qed

section \<open>The slot mirror is kept by every call\<close>







lemma inv_at_lock [simp]: "inv_at N (t\<lparr>lock := b\<rparr>) m = inv_at N t m"
  by (simp add: inv_at_def)

















end
